theory Spec2Isabelle
  imports Main "HOL-Library.Word"
begin

section \<open>Data model of the load balancer (main.go)\<close>

text \<open>
  Go's \<open>int\<close> is taken as the 64-bit signed integer of a 64-bit platform and
  \<open>uint64\<close> as a 64-bit word; \<open>len\<close> of a slice is a natural number (it is a
  non-negative \<open>int\<close>, so \<open>uint64(len(...))\<close> is exact).

  Of a \<open>*url.URL\<close> the program observes two things only: \<open>u.Host\<close> (the dial
  address of the prober) and \<open>u.String()\<close> (the identity compared by
  \<open>MarkBackendStatus\<close>). The record \<open>url\<close> holds these two observations.
\<close>

type_synonym go_int = "64 word"
type_synonym uint64 = "64 word"

record url =
  url_Host :: string
  url_String :: string

text \<open>
  \<open>Backend\<close>: the mutex guards \<open>Alive\<close> and has no sequential content; the
  \<open>ReverseProxy\<close> of a backend is bound to the backend's URL at construction and is
  modelled by the functions \<open>ServeHTTP\<close> and \<open>ErrorHandler\<close> below, which take that
  URL.
\<close>

record Backend =
  URL :: url
  Alive :: bool

record ServerPool =
  backends :: "Backend list"
  current :: uint64

datatype panic = DivideByZero

definition SetAlive :: "Backend \<Rightarrow> bool \<Rightarrow> Backend" where
  "SetAlive b alive = b\<lparr>Alive := alive\<rparr>"

definition IsAlive :: "Backend \<Rightarrow> bool" where
  "IsAlive b = Alive b"

definition AddBackend :: "ServerPool \<Rightarrow> Backend \<Rightarrow> ServerPool" where
  "AddBackend s backend = s\<lparr>backends := backends s @ [backend]\<rparr>"

section \<open>Selection\<close>

text \<open>
  \<open>NextIndex\<close>: \<open>atomic.AddUint64(&s.current, 1)\<close> adds with wrap-around and
  yields the new value; the remainder by \<open>len(s.backends)\<close> panics (integer divide by
  zero) on an empty pool, after the counter has been incremented. The result is the
  index or the panic, together with the pool as the call leaves it.
\<close>

definition NextIndex :: "ServerPool \<Rightarrow> (panic + nat) \<times> ServerPool" where
  "NextIndex s =
     (let s' = s\<lparr>current := current s + 1\<rparr> in
      if length (backends s') = 0 then (Inl DivideByZero, s')
      else (Inr (unat (current s') mod length (backends s')), s'))"

text \<open>
  The scan of \<open>GetNextPeer\<close>: \<open>for i := next; i < l; i++\<close>. A returned backend
  pointer is modelled by the backend's index in the pool.
\<close>

function GetNextPeer_loop :: "ServerPool \<Rightarrow> nat \<Rightarrow> nat \<Rightarrow> nat \<Rightarrow> nat option \<times> ServerPool" where
  "GetNextPeer_loop s next l i =
     (if i < l then
        (let idx = i mod length (backends s) in
         if IsAlive (backends s ! idx) then
           (Some idx, if i \<noteq> next then s\<lparr>current := of_nat idx\<rparr> else s)
         else GetNextPeer_loop s next l (i + 1))
      else (None, s))"
  by pat_completeness auto
termination
  by (relation "measure (\<lambda>(s, next, l, i). l - i)") auto

declare GetNextPeer_loop.simps [simp del]

definition GetNextPeer :: "ServerPool \<Rightarrow> (panic + nat option) \<times> ServerPool" where
  "GetNextPeer s =
     (case NextIndex s of
        (Inl e, s') \<Rightarrow> (Inl e, s')
      | (Inr next, s') \<Rightarrow>
          (let l = length (backends s') + next in
           case GetNextPeer_loop s' next l next of
             (peer, s'') \<Rightarrow> (Inr peer, s'')))"

text \<open>Sequential calls of \<open>GetNextPeer\<close> with nothing in between, results in call order.\<close>

fun GetNextPeer_times :: "nat \<Rightarrow> ServerPool \<Rightarrow> (panic + nat option) list \<times> ServerPool" where
  "GetNextPeer_times 0 s = ([], s)"
| "GetNextPeer_times (Suc n) s =
     (case GetNextPeer s of
        (r, s') \<Rightarrow> (case GetNextPeer_times n s' of (rs, s'') \<Rightarrow> (r # rs, s'')))"

section \<open>Passive status updates\<close>

text \<open>
  \<open>MarkBackendStatus\<close>: \<open>for _, b := range s.backends\<close> with a \<open>break\<close> at the
  first backend whose URL string equals that of the argument.
\<close>

fun MarkBackendStatus_loop :: "Backend list \<Rightarrow> url \<Rightarrow> bool \<Rightarrow> Backend list" where
  "MarkBackendStatus_loop [] backendURL alive = []"
| "MarkBackendStatus_loop (b # bs) backendURL alive =
     (if url_String (URL b) = url_String backendURL then SetAlive b alive # bs
      else b # MarkBackendStatus_loop bs backendURL alive)"

definition MarkBackendStatus :: "ServerPool \<Rightarrow> url \<Rightarrow> bool \<Rightarrow> ServerPool" where
  "MarkBackendStatus s backendURL alive =
     s\<lparr>backends := MarkBackendStatus_loop (backends s) backendURL alive\<rparr>"

section \<open>Per-request counters carried in the request context\<close>

text \<open>
  A \<open>context.Context\<close> is a chain of key/value pairs; \<open>WithValue\<close> puts a pair in
  front and \<open>Value\<close> returns the value of the first pair whose key is equal to the
  one asked for. Keys are interface values: two keys are equal only if they have the same
  dynamic type and the same value. The keys of this program are of dynamic type \<open>int\<close>
  (the constants \<open>Attempts\<close> and \<open>Retry\<close>) and of the string type \<open>contextKey\<close>
  declared inside \<open>main\<close>; keys and values of any other type are \<open>ForeignKey\<close>
  and \<open>ForeignVal\<close>.
\<close>

datatype key = IntKey go_int | ContextKey string | ForeignKey nat

datatype val = IntVal go_int | ForeignVal nat

type_synonym ctx = "(key \<times> val) list"

definition Value :: "ctx \<Rightarrow> key \<Rightarrow> val option" where
  "Value c k = map_of c k"

definition WithValue :: "ctx \<Rightarrow> key \<Rightarrow> val \<Rightarrow> ctx" where
  "WithValue parent k v = (k, v) # parent"

definition Attempts :: go_int where
  "Attempts = 0"

definition Retry :: go_int where
  "Retry = 1"

text \<open>
  The conversion \<open>contextKey(x)\<close> of an \<open>int\<close> to a string type gives the UTF-8
  encoding of the code point \<open>x\<close>, and of U+FFFD when \<open>x\<close> is no valid code point.
\<close>

definition rune_bytes :: "int \<Rightarrow> nat list" where
  "rune_bytes x =
     (if x < 0 \<or> 1114111 < x \<or> (55296 \<le> x \<and> x \<le> 57343) then [239, 191, 189]
      else let n = nat x in
        if n < 128 then [n]
        else if n < 2048 then [192 + n div 64, 128 + n mod 64]
        else if n < 65536 then [224 + n div 4096, 128 + (n div 64) mod 64, 128 + n mod 64]
        else [240 + n div 262144, 128 + (n div 4096) mod 64, 128 + (n div 64) mod 64,
              128 + n mod 64])"

definition contextKey :: "go_int \<Rightarrow> key" where
  "contextKey x = ContextKey (map char_of (rune_bytes (sint x)))"

record Request =
  RemoteAddr :: string
  Path :: string
  Context :: ctx

definition WithContext :: "Request \<Rightarrow> ctx \<Rightarrow> Request" where
  "WithContext r c = r\<lparr>Context := c\<rparr>"

text \<open>The type assertion \<open>.(int)\<close> fails on a missing value and on one of another type.\<close>

definition GetAttemptsFromContext :: "Request \<Rightarrow> go_int" where
  "GetAttemptsFromContext r =
     (case Value (Context r) (IntKey Attempts) of
        Some (IntVal attempts) \<Rightarrow> attempts
      | _ \<Rightarrow> 1)"

definition GetRetryFromContext :: "Request \<Rightarrow> go_int" where
  "GetRetryFromContext r =
     (case Value (Context r) (IntKey Retry) of
        Some (IntVal retry) \<Rightarrow> retry
      | _ \<Rightarrow> 0)"

section \<open>Dispatcher and forwarding-error handler\<close>

text \<open>
  What the program does to the outside is recorded as a trace of events, oldest first:
  entering \<open>lb\<close>, a round trip of the reverse proxy to a backend with the request it
  sends, a wait of \<open>time.After\<close>, a call of \<open>http.Error\<close> with its message and
  status code, and a \<open>net.DialTimeout\<close> with its network, address and timeout. Log
  lines have no influence on control flow and are left out. Durations are nanoseconds.

  The outside world answers through two functions of the trace so far: a \<open>transport\<close>
  says whether a round trip to a backend yields a response (otherwise the proxy calls its
  \<open>ErrorHandler\<close>), a \<open>dialer\<close> says whether a dial succeeds.
\<close>

datatype event =
    Enter_lb Request
  | RoundTrip url Request
  | Sleep int
  | HttpError string nat
  | Dial string string int

record world =
  pool :: ServerPool
  trace :: "event list"

type_synonym transport = "event list \<Rightarrow> url \<Rightarrow> Request \<Rightarrow> bool"
type_synonym dialer = "event list \<Rightarrow> string \<Rightarrow> string \<Rightarrow> int \<Rightarrow> bool"

datatype outcome = Returned | Panicked panic | OutOfFuel

definition Millisecond :: int where
  "Millisecond = 1000000"

definition Second :: int where
  "Second = 1000 * Millisecond"

definition StatusServiceUnavailable :: nat where
  "StatusServiceUnavailable = 503"

definition emit :: "world \<Rightarrow> event \<Rightarrow> world" where
  "emit w e = w\<lparr>trace := trace w @ [e]\<rparr>"

text \<open>
  \<open>lb\<close>, the \<open>ServeHTTP\<close> of the proxy bound to \<open>serverURL\<close>, and the
  \<open>ErrorHandler\<close> closure of that proxy call each other without bound in the source.
  The first argument is fuel: every round trip costs one unit, and \<open>OutOfFuel\<close> is the
  outcome of a run that has not returned when the fuel is used up.
\<close>

fun lb :: "nat \<Rightarrow> transport \<Rightarrow> Request \<Rightarrow> world \<Rightarrow> outcome \<times> world"
  and ServeHTTP :: "nat \<Rightarrow> transport \<Rightarrow> url \<Rightarrow> Request \<Rightarrow> world \<Rightarrow> outcome \<times> world"
  and ErrorHandler :: "nat \<Rightarrow> transport \<Rightarrow> url \<Rightarrow> Request \<Rightarrow> world \<Rightarrow> outcome \<times> world"
where
  "lb n rt r w =
     (let w0 = emit w (Enter_lb r);
          attempts = GetAttemptsFromContext r
      in if 3 <s attempts then
           (Returned, emit w0 (HttpError ''Service not available'' StatusServiceUnavailable))
         else
           (case GetNextPeer (pool w0) of
              (Inl e, s') \<Rightarrow> (Panicked e, w0\<lparr>pool := s'\<rparr>)
            | (Inr (Some peer), s') \<Rightarrow>
                ServeHTTP n rt (URL (backends s' ! peer)) r (w0\<lparr>pool := s'\<rparr>)
            | (Inr None, s') \<Rightarrow>
                (Returned,
                 emit (w0\<lparr>pool := s'\<rparr>)
                   (HttpError ''Service not available'' StatusServiceUnavailable))))"
| "ServeHTTP 0 rt serverURL r w = (OutOfFuel, w)"
| "ServeHTTP (Suc n) rt serverURL r w =
     (let ok = rt (trace w) serverURL r;
          w1 = emit w (RoundTrip serverURL r)
      in if ok then (Returned, w1) else ErrorHandler n rt serverURL r w1)"
| "ErrorHandler n rt serverURL request w =
     (let retries = GetRetryFromContext request in
      if retries <s 3 then
        (let w1 = emit w (Sleep (10 * Millisecond));
             c = WithValue (Context request) (contextKey Retry) (IntVal (retries + 1))
         in ServeHTTP n rt serverURL (WithContext request c) w1)
      else
        (let w1 = w\<lparr>pool := MarkBackendStatus (pool w) serverURL False\<rparr>;
             attempts = GetAttemptsFromContext request;
             c = WithValue (Context request) (contextKey Attempts) (IntVal (attempts + 1))
         in lb n rt (WithContext request c) w1))"

section \<open>Active health probing\<close>

text \<open>
  \<open>isBackendAlive\<close> dials \<open>u.Host\<close> over TCP with a timeout of two seconds;
  \<open>HealthCheck\<close> does so for every backend of the pool in order and stores the answer
  with \<open>SetAlive\<close>.
\<close>

definition isBackendAlive :: "dialer \<Rightarrow> url \<Rightarrow> event list \<Rightarrow> bool \<times> event list" where
  "isBackendAlive dial u tr =
     (let timeout = 2 * Second;
          ok = dial tr ''tcp'' (url_Host u) timeout
      in (ok, tr @ [Dial ''tcp'' (url_Host u) timeout]))"

fun HealthCheck_loop :: "dialer \<Rightarrow> Backend list \<Rightarrow> event list \<Rightarrow> Backend list \<times> event list" where
  "HealthCheck_loop dial [] tr = ([], tr)"
| "HealthCheck_loop dial (b # bs) tr =
     (case isBackendAlive dial (URL b) tr of
        (alive, tr') \<Rightarrow>
          (case HealthCheck_loop dial bs tr' of
             (bs', tr'') \<Rightarrow> (SetAlive b alive # bs', tr'')))"

definition HealthCheck :: "dialer \<Rightarrow> world \<Rightarrow> world" where
  "HealthCheck dial w =
     (case HealthCheck_loop dial (backends (pool w)) (trace w) of
        (bs, tr) \<Rightarrow> w\<lparr>pool := (pool w)\<lparr>backends := bs\<rparr>, trace := tr\<rparr>)"

text \<open>The dial that \<open>isBackendAlive\<close> performs for a backend, as a trace event.\<close>

definition probe_of :: "Backend \<Rightarrow> event" where
  "probe_of b = Dial ''tcp'' (url_Host (URL b)) (2 * Second)"

section \<open>Concrete pools and requests\<close>

definition url_A :: url where
  "url_A = \<lparr>url_Host = ''a:80'', url_String = ''http://a:80''\<rparr>"

definition url_B :: url where
  "url_B = \<lparr>url_Host = ''b:80'', url_String = ''http://b:80''\<rparr>"

definition url_C :: url where
  "url_C = \<lparr>url_Host = ''c:80'', url_String = ''http://c:80''\<rparr>"

definition url_D :: url where
  "url_D = \<lparr>url_Host = ''d:80'', url_String = ''http://d:80''\<rparr>"

definition pool_ABC :: "uint64 \<Rightarrow> ServerPool" where
  "pool_ABC c =
     \<lparr>backends = [\<lparr>URL = url_A, Alive = True\<rparr>, \<lparr>URL = url_B, Alive = True\<rparr>,
                  \<lparr>URL = url_C, Alive = True\<rparr>],
      current = c\<rparr>"

definition pool_dead_dead_C :: ServerPool where
  "pool_dead_dead_C =
     \<lparr>backends = [\<lparr>URL = url_A, Alive = False\<rparr>, \<lparr>URL = url_B, Alive = False\<rparr>,
                  \<lparr>URL = url_C, Alive = True\<rparr>],
      current = 5\<rparr>"

definition pool_all_dead :: ServerPool where
  "pool_all_dead =
     \<lparr>backends = [\<lparr>URL = url_A, Alive = False\<rparr>, \<lparr>URL = url_B, Alive = False\<rparr>],
      current = 7\<rparr>"

definition pool_A_B_A :: ServerPool where
  "pool_A_B_A =
     \<lparr>backends = [\<lparr>URL = url_A, Alive = True\<rparr>, \<lparr>URL = url_B, Alive = True\<rparr>,
                  \<lparr>URL = url_A, Alive = True\<rparr>],
      current = 0\<rparr>"

definition fresh_request :: Request where
  "fresh_request = \<lparr>RemoteAddr = ''10.0.0.9:4711'', Path = ''/'', Context = []\<rparr>"

definition dial_only_a :: dialer where
  "dial_only_a tr network address timeout =
     (network = ''tcp'' \<and> address = ''a:80'' \<and> timeout = 2000000000)"

text \<open>
  A transport on which every round trip fails, and the requests that the error handler
  derives by \<open>k\<close> retries from a request without counters.
\<close>

definition never :: transport where
  "never tr u r = False"

definition retried :: "nat \<Rightarrow> Request" where
  "retried k = fresh_request\<lparr>Context := replicate k (contextKey Retry, IntVal 1)\<rparr>"

text \<open>How often a trace enters \<open>lb\<close>.\<close>

fun is_Enter_lb :: "event \<Rightarrow> bool" where
  "is_Enter_lb (Enter_lb r) = True"
| "is_Enter_lb e = False"

definition routing_entries :: "event list \<Rightarrow> nat" where
  "routing_entries tr = length (filter is_Enter_lb tr)"



section \<open>Request counters: defaults\<close>

text \<open>
  Claim C6. For a request whose context carries no \<open>int\<close> value under the key
  \<open>Attempts\<close>, \<open>GetAttemptsFromContext\<close> returns 1; for a request whose context
  carries no \<open>int\<close> value under the key \<open>Retry\<close>, \<open>GetRetryFromContext\<close>
  returns 0.
\<close>

theorem C6_counter_defaults:
  "((\<forall>n. Value (Context r) (IntKey Attempts) \<noteq> Some (IntVal n)) \<longrightarrow>
      GetAttemptsFromContext r = 1) \<and>
   ((\<forall>n. Value (Context r) (IntKey Retry) \<noteq> Some (IntVal n)) \<longrightarrow>
      GetRetryFromContext r = 0)"
  by (auto simp: GetAttemptsFromContext_def GetRetryFromContext_def
      split: option.splits val.splits)

theorem C6_counter_defaults_witness:
  "(\<forall>n. Value (Context fresh_request) (IntKey Attempts) \<noteq> Some (IntVal n)) \<and>
   GetAttemptsFromContext fresh_request = 1 \<and>
   (\<forall>n. Value (Context fresh_request) (IntKey Retry) \<noteq> Some (IntVal n)) \<and>
   GetRetryFromContext fresh_request = 0"
proof -
  have a: "\<forall>n. Value (Context fresh_request) (IntKey Attempts) \<noteq> Some (IntVal n)"
    and b: "\<forall>n. Value (Context fresh_request) (IntKey Retry) \<noteq> Some (IntVal n)"
    by (simp_all add: fresh_request_def Value_def)
  with C6_counter_defaults [of fresh_request] show ?thesis by blast
qed

section \<open>The rotation cursor\<close>

text \<open>
  Claim C7. On a pool with at least one backend, \<open>NextIndex\<close> increments the cursor
  (as a 64-bit unsigned addition) and returns the incremented cursor modulo the number of
  backends; it does not panic, and the index it returns is below the number of backends.
\<close>

theorem C7_NextIndex:
  "backends s \<noteq> [] \<Longrightarrow>
   NextIndex s =
     (Inr (unat (current s + 1) mod length (backends s)), s\<lparr>current := current s + 1\<rparr>) \<and>
   unat (current s + 1) mod length (backends s) < length (backends s)"
  by (simp add: NextIndex_def Let_def)

theorem C7_NextIndex_witness:
  "backends (pool_ABC 6) \<noteq> [] \<and>
   NextIndex (pool_ABC 6) = (Inr 1, pool_ABC 7) \<and> (1::nat) < length (backends (pool_ABC 6))"
proof -
  have n: "backends (pool_ABC 6) \<noteq> []" by (simp add: pool_ABC_def)
  from C7_NextIndex [OF n] n show ?thesis by (simp add: pool_ABC_def)
qed

section \<open>Selection skips backends that are not alive\<close>

lemma GetNextPeer_loop_backends:
  "GetNextPeer_loop s next l i = (r, s') \<Longrightarrow> backends s' = backends s"
proof (induction s "next" l i rule: GetNextPeer_loop.induct)
  case (1 s "next" l i)
  then show ?case
    by (subst (asm) (2) GetNextPeer_loop.simps) (auto simp: Let_def split: if_splits)
qed

lemma GetNextPeer_loop_Some:
  "GetNextPeer_loop s next l i = (Some idx, s') \<Longrightarrow> backends s \<noteq> [] \<Longrightarrow>
   idx < length (backends s) \<and> Alive (backends s ! idx)"
proof (induction s "next" l i rule: GetNextPeer_loop.induct)
  case (1 s "next" l i)
  then show ?case
    by (subst (asm) (2) GetNextPeer_loop.simps) (auto simp: Let_def IsAlive_def split: if_splits)
qed

lemma GetNextPeer_loop_None:
  "GetNextPeer_loop s next l i = (None, s') \<Longrightarrow> i \<le> k \<Longrightarrow> k < l \<Longrightarrow>
   \<not> Alive (backends s ! (k mod length (backends s)))"
proof (induction s "next" l i rule: GetNextPeer_loop.induct)
  case (1 s "next" l i)
  from "1.prems"(3) "1.prems"(2) have il: "i < l" by simp
  from "1.prems"(1) il have a: "\<not> IsAlive (backends s ! (i mod length (backends s)))"
    by (subst (asm) GetNextPeer_loop.simps) (auto simp: Let_def split: if_splits)
  from "1.prems"(1) il have b: "GetNextPeer_loop s next l (i + 1) = (None, s')"
    by (subst (asm) GetNextPeer_loop.simps) (auto simp: Let_def split: if_splits)
  show ?case
  proof (cases "k = i")
    case True
    with a show ?thesis by (simp add: IsAlive_def)
  next
    case False
    with "1.prems"(2) have "i + 1 \<le> k" by simp
    from "1.IH" [OF il refl a b this "1.prems"(3)] show ?thesis .
  qed
qed

lemma residue_in_window:
  assumes "j < (n::nat)"
  shows "\<exists>k. m \<le> k \<and> k < n + m \<and> k mod n = j"
proof -
  let ?k = "m + (j + n - m mod n) mod n"
  have "m mod n < n" using assms by simp
  have "?k mod n = (m mod n + (j + n - m mod n) mod n) mod n"
    by (simp add: mod_add_left_eq)
  also have "\<dots> = (m mod n + (j + n - m mod n)) mod n"
    by (simp add: mod_add_right_eq)
  also have "m mod n + (j + n - m mod n) = j + n"
    using \<open>m mod n < n\<close> by simp
  also have "(j + n) mod n = j" using assms by simp
  finally have "?k mod n = j" .
  moreover have "(j + n - m mod n) mod n < n" using assms by simp
  ultimately have "m \<le> ?k \<and> ?k < n + m \<and> ?k mod n = j" by simp
  then show ?thesis by blast
qed

lemma GetNextPeer_loop_None_all:
  assumes "GetNextPeer_loop s next (length (backends s) + next) next = (None, s')"
  shows "\<forall>b\<in>set (backends s). \<not> Alive b"
proof
  fix b assume "b \<in> set (backends s)"
  then obtain j where j: "j < length (backends s)" "backends s ! j = b"
    by (auto simp: in_set_conv_nth)
  from residue_in_window [OF j(1), of "next"] obtain k
    where k: "next \<le> k" "k < length (backends s) + next" "k mod length (backends s) = j"
    by blast
  from GetNextPeer_loop_None [OF assms k(1,2)] k(3) j(2) show "\<not> Alive b" by simp
qed

text \<open>On an empty pool the remainder in \<open>NextIndex\<close> panics, after the increment.\<close>

lemma GetNextPeer_empty_pool:
  "backends s = [] \<Longrightarrow> GetNextPeer s = (Inl DivideByZero, s\<lparr>current := current s + 1\<rparr>)"
  by (simp add: GetNextPeer_def NextIndex_def Let_def)

text \<open>
  Claim C4. On a pool with at least one backend (the pool invariant; on an empty pool the
  remainder in \<open>NextIndex\<close> panics): if some backend is alive, \<open>GetNextPeer\<close> returns
  a backend of the pool that is alive; if no backend is alive, it returns none. The list
  of backends is left as it was.
\<close>

theorem C4_GetNextPeer_alive:
  assumes "backends s \<noteq> []"
  shows "((\<exists>b\<in>set (backends s). Alive b) \<longrightarrow>
            (\<exists>idx<length (backends s). fst (GetNextPeer s) = Inr (Some idx) \<and> Alive (backends s ! idx))) \<and>
         ((\<forall>b\<in>set (backends s). \<not> Alive b) \<longrightarrow> fst (GetNextPeer s) = Inr None) \<and>
         backends (snd (GetNextPeer s)) = backends s"
proof -
  let ?s1 = "s\<lparr>current := current s + 1\<rparr>"
  let ?next = "unat (current s + 1) mod length (backends s)"
  obtain r s2 where loop: "GetNextPeer_loop ?s1 ?next (length (backends s) + ?next) ?next = (r, s2)"
    by (cases "GetNextPeer_loop ?s1 ?next (length (backends s) + ?next) ?next")
  from assms loop have G: "GetNextPeer s = (Inr r, s2)"
    by (simp add: GetNextPeer_def NextIndex_def Let_def)
  from GetNextPeer_loop_backends [OF loop] have B: "backends s2 = backends s" by simp
  show ?thesis
  proof (cases r)
    case None
    with loop have "GetNextPeer_loop ?s1 ?next (length (backends ?s1) + ?next) ?next = (None, s2)"
      by simp
    from GetNextPeer_loop_None_all [OF this] have "\<forall>b\<in>set (backends s). \<not> Alive b" by simp
    with G B None show ?thesis by simp
  next
    case (Some idx)
    with loop assms GetNextPeer_loop_Some [of ?s1 ?next _ ?next idx s2]
    have "idx < length (backends s) \<and> Alive (backends s ! idx)" by simp
    with G B Some show ?thesis by auto
  qed
qed
theorem C4_GetNextPeer_alive_witness:
  "backends pool_dead_dead_C \<noteq> [] \<and>
   fst (GetNextPeer pool_dead_dead_C) = Inr (Some 2) \<and>
   Alive (backends pool_dead_dead_C ! 2) \<and>
   backends pool_all_dead \<noteq> [] \<and>
   fst (GetNextPeer pool_all_dead) = Inr None"
proof -
  have n1: "backends pool_dead_dead_C \<noteq> []" and n2: "backends pool_all_dead \<noteq> []"
    by (simp_all add: pool_dead_dead_C_def pool_all_dead_def)
  have a: "\<exists>b\<in>set (backends pool_dead_dead_C). Alive b"
    by (simp add: pool_dead_dead_C_def)
  have d: "\<forall>b\<in>set (backends pool_all_dead). \<not> Alive b"
    by (simp add: pool_all_dead_def)
  from C4_GetNextPeer_alive [OF n1] a obtain idx where idx: "idx < length (backends pool_dead_dead_C)"
    "fst (GetNextPeer pool_dead_dead_C) = Inr (Some idx)" "Alive (backends pool_dead_dead_C ! idx)"
    by blast
  have "idx = 2"
  proof -
    from idx(1) have "idx = 0 \<or> idx = 1 \<or> idx = 2"
      by (auto simp: pool_dead_dead_C_def less_Suc_eq numeral_3_eq_3)
    with idx(3) show ?thesis by (auto simp: pool_dead_dead_C_def)
  qed
  with idx C4_GetNextPeer_alive [OF n2] d n1 n2 show ?thesis by simp
qed

section \<open>Passive marking\<close>

lemma first_index_ex:
  "\<exists>x\<in>set xs. P x \<Longrightarrow> \<exists>i<length xs. P (xs ! i) \<and> (\<forall>k<i. \<not> P (xs ! k))"
proof (induction xs)
  case Nil
  then show ?case by simp
next
  case (Cons x xs)
  show ?case
  proof (cases "P x")
    case True
    then have "0 < length (x # xs) \<and> P ((x # xs) ! 0) \<and> (\<forall>k<0. \<not> P ((x # xs) ! k))"
      by simp
    then show ?thesis by blast
  next
    case False
    with Cons.prems have "\<exists>y\<in>set xs. P y" by auto
    with Cons.IH obtain i where i: "i < length xs" "P (xs ! i)" "\<forall>k<i. \<not> P (xs ! k)"
      by blast
    have "\<forall>k<Suc i. \<not> P ((x # xs) ! k)"
      using False i(3) by (auto simp: nth_Cons split: nat.splits)
    with i(1,2) have "Suc i < length (x # xs) \<and> P ((x # xs) ! Suc i) \<and>
        (\<forall>k<Suc i. \<not> P ((x # xs) ! k))"
      by simp
    then show ?thesis by blast
  qed
qed

lemma MarkBackendStatus_loop_no_match:
  "\<forall>b\<in>set bs. url_String (URL b) \<noteq> url_String u \<Longrightarrow> MarkBackendStatus_loop bs u a = bs"
  by (induction bs) auto

lemma MarkBackendStatus_loop_first:
  "i < length bs \<Longrightarrow> url_String (URL (bs ! i)) = url_String u \<Longrightarrow>
   \<forall>k<i. url_String (URL (bs ! k)) \<noteq> url_String u \<Longrightarrow>
   MarkBackendStatus_loop bs u a = bs[i := SetAlive (bs ! i) a]"
proof (induction bs arbitrary: i)
  case Nil
  then show ?case by simp
next
  case (Cons b bs)
  show ?case
  proof (cases i)
    case 0
    with Cons.prems show ?thesis by simp
  next
    case (Suc i')
    from Cons.prems(3) Suc have b: "url_String (URL b) \<noteq> url_String u" by auto
    from Cons.prems(3) Suc have "\<forall>k<i'. url_String (URL (bs ! k)) \<noteq> url_String u" by auto
    with Cons.IH [of i'] Cons.prems(1,2) Suc
    have "MarkBackendStatus_loop bs u a = bs[i' := SetAlive (bs ! i') a]" by simp
    with b Suc show ?thesis by simp
  qed
qed

text \<open>
  Claim C9. \<open>MarkBackendStatus\<close> with a URL whose string equals that of no backend of
  the pool returns the pool unchanged (every backend and the cursor). When some backend
  matches, the result is the pool with the \<open>Alive\<close> flag of one matching backend set to
  the given value: the URL of that backend, every other backend and the cursor are
  unchanged.
\<close>

theorem C9_MarkBackendStatus_frame:
  "((\<forall>b\<in>set (backends s). url_String (URL b) \<noteq> url_String u) \<longrightarrow>
      MarkBackendStatus s u a = s) \<and>
   ((\<exists>b\<in>set (backends s). url_String (URL b) = url_String u) \<longrightarrow>
      (\<exists>i<length (backends s). url_String (URL (backends s ! i)) = url_String u \<and>
         MarkBackendStatus s u a =
           s\<lparr>backends := (backends s)[i := (backends s ! i)\<lparr>Alive := a\<rparr>]\<rparr>))"
proof (intro conjI impI)
  assume "\<forall>b\<in>set (backends s). url_String (URL b) \<noteq> url_String u"
  then show "MarkBackendStatus s u a = s"
    by (simp add: MarkBackendStatus_def MarkBackendStatus_loop_no_match)
next
  assume "\<exists>b\<in>set (backends s). url_String (URL b) = url_String u"
  from first_index_ex [where P = "\<lambda>b. url_String (URL b) = url_String u", OF this]
  obtain i where i: "i < length (backends s)"
    "url_String (URL (backends s ! i)) = url_String u"
    "\<forall>k<i. url_String (URL (backends s ! k)) \<noteq> url_String u" by blast
  then have "MarkBackendStatus s u a =
      s\<lparr>backends := (backends s)[i := (backends s ! i)\<lparr>Alive := a\<rparr>]\<rparr>"
    by (simp add: MarkBackendStatus_def MarkBackendStatus_loop_first SetAlive_def)
  with i(1,2) show "\<exists>i<length (backends s). url_String (URL (backends s ! i)) = url_String u \<and>
         MarkBackendStatus s u a =
           s\<lparr>backends := (backends s)[i := (backends s ! i)\<lparr>Alive := a\<rparr>]\<rparr>"
    by blast
qed

theorem C9_MarkBackendStatus_frame_witness:
  "url_String url_D \<notin> set (map (\<lambda>b. url_String (URL b)) (backends (pool_ABC 4))) \<and>
   MarkBackendStatus (pool_ABC 4) url_D False = pool_ABC 4 \<and>
   (\<exists>b\<in>set (backends (pool_ABC 4)). url_String (URL b) = url_String url_B) \<and>
   (\<exists>i<length (backends (pool_ABC 4)).
      url_String (URL (backends (pool_ABC 4) ! i)) = url_String url_B \<and>
      MarkBackendStatus (pool_ABC 4) url_B False =
        (pool_ABC 4)\<lparr>backends :=
          (backends (pool_ABC 4))[i := (backends (pool_ABC 4) ! i)\<lparr>Alive := False\<rparr>]\<rparr>)"
proof -
  have d: "\<forall>b\<in>set (backends (pool_ABC 4)). url_String (URL b) \<noteq> url_String url_D"
    by (simp add: pool_ABC_def url_A_def url_B_def url_C_def url_D_def)
  have b: "\<exists>b\<in>set (backends (pool_ABC 4)). url_String (URL b) = url_String url_B"
    by (simp add: pool_ABC_def)
  from C9_MarkBackendStatus_frame [of "pool_ABC 4" url_D False] d
  have 1: "MarkBackendStatus (pool_ABC 4) url_D False = pool_ABC 4" by blast
  from C9_MarkBackendStatus_frame [of "pool_ABC 4" url_B False] b
  have 2: "\<exists>i<length (backends (pool_ABC 4)).
      url_String (URL (backends (pool_ABC 4) ! i)) = url_String url_B \<and>
      MarkBackendStatus (pool_ABC 4) url_B False =
        (pool_ABC 4)\<lparr>backends :=
          (backends (pool_ABC 4))[i := (backends (pool_ABC 4) ! i)\<lparr>Alive := False\<rparr>]\<rparr>"
    by blast
  from d have d': "url_String url_D \<notin> set (map (\<lambda>b. url_String (URL b)) (backends (pool_ABC 4)))"
    by auto
  from d' 1 b 2 show ?thesis by blast
qed

text \<open>
  Claim C10. When two backends of the pool at positions \<open>i < j\<close> both have the URL
  string of the argument, \<open>MarkBackendStatus\<close> changes one backend only: the first one
  in pool order with that URL string, which is at a position \<open>k \<le> i\<close>; the later backend
  at position \<open>j\<close> is unchanged.
\<close>

theorem C10_MarkBackendStatus_first_duplicate:
  assumes "i < j" "j < length (backends s)"
    and "url_String (URL (backends s ! i)) = url_String u"
    and "url_String (URL (backends s ! j)) = url_String u"
  shows "\<exists>k\<le>i. url_String (URL (backends s ! k)) = url_String u \<and>
           (\<forall>m<k. url_String (URL (backends s ! m)) \<noteq> url_String u) \<and>
           backends (MarkBackendStatus s u a) =
             (backends s)[k := (backends s ! k)\<lparr>Alive := a\<rparr>] \<and>
           backends (MarkBackendStatus s u a) ! j = backends s ! j"
proof -
  from assms have "\<exists>b\<in>set (backends s). url_String (URL b) = url_String u"
    by (metis nth_mem)
  from first_index_ex [where P = "\<lambda>b. url_String (URL b) = url_String u", OF this]
  obtain k where k: "k < length (backends s)"
    "url_String (URL (backends s ! k)) = url_String u"
    "\<forall>m<k. url_String (URL (backends s ! m)) \<noteq> url_String u" by blast
  from k(3) assms(3) have ki: "k \<le> i" by (meson not_le)
  from k have eq: "backends (MarkBackendStatus s u a) =
      (backends s)[k := (backends s ! k)\<lparr>Alive := a\<rparr>]"
    by (simp add: MarkBackendStatus_def MarkBackendStatus_loop_first SetAlive_def)
  from ki assms(1) have "k \<noteq> j" by simp
  with eq have "backends (MarkBackendStatus s u a) ! j = backends s ! j" by simp
  with ki k(2,3) eq show ?thesis by blast
qed

theorem C10_MarkBackendStatus_first_duplicate_witness:
  "(0::nat) < 2 \<and> 2 < length (backends pool_A_B_A) \<and>
   url_String (URL (backends pool_A_B_A ! 0)) = url_String url_A \<and>
   url_String (URL (backends pool_A_B_A ! 2)) = url_String url_A \<and>
   backends (MarkBackendStatus pool_A_B_A url_A False) =
     (backends pool_A_B_A)[0 := (backends pool_A_B_A ! 0)\<lparr>Alive := False\<rparr>] \<and>
   backends (MarkBackendStatus pool_A_B_A url_A False) ! 2 = backends pool_A_B_A ! 2"
proof -
  have h: "(0::nat) < 2" "2 < length (backends pool_A_B_A)"
    "url_String (URL (backends pool_A_B_A ! 0)) = url_String url_A"
    "url_String (URL (backends pool_A_B_A ! 2)) = url_String url_A"
    by (simp_all add: pool_A_B_A_def)
  from C10_MarkBackendStatus_first_duplicate [OF h, of False]
  have "backends (MarkBackendStatus pool_A_B_A url_A False) =
          (backends pool_A_B_A)[0 := (backends pool_A_B_A ! 0)\<lparr>Alive := False\<rparr>] \<and>
        backends (MarkBackendStatus pool_A_B_A url_A False) ! 2 = backends pool_A_B_A ! 2"
    by simp
  with h show ?thesis by simp
qed

section \<open>Round robin over a pool of alive backends\<close>

lemma GetNextPeer_all_alive:
  assumes "backends s \<noteq> []" "\<forall>b\<in>set (backends s). Alive b"
  shows "GetNextPeer s =
    (Inr (Some (unat (current s + 1) mod length (backends s))), s\<lparr>current := current s + 1\<rparr>)"
proof -
  let ?n = "length (backends s)"
  let ?next = "unat (current s + 1) mod ?n"
  let ?s1 = "s\<lparr>current := current s + 1\<rparr>"
  from assms(1) have lt: "?next < ?n" by simp
  with assms(2) have al: "Alive (backends s ! ?next)" by simp
  from lt have "GetNextPeer_loop ?s1 ?next (?n + ?next) ?next = (Some ?next, ?s1)"
    using al assms(1) by (subst GetNextPeer_loop.simps) (simp add: Let_def IsAlive_def)
  with assms(1) show ?thesis
    by (simp add: GetNextPeer_def NextIndex_def Let_def)
qed

lemma GetNextPeer_times_all_alive:
  "backends s \<noteq> [] \<Longrightarrow> \<forall>b\<in>set (backends s). Alive b \<Longrightarrow>
   GetNextPeer_times k s =
     (map (\<lambda>j. Inr (Some (unat (current s + of_nat (Suc j)) mod length (backends s)))) [0..<k],
      s\<lparr>current := current s + of_nat k\<rparr>)"
proof (induction k arbitrary: s)
  case 0
  then show ?case by simp
next
  case (Suc k)
  let ?s1 = "s\<lparr>current := current s + 1\<rparr>"
  from Suc.prems have G: "GetNextPeer s =
    (Inr (Some (unat (current s + 1) mod length (backends s))), ?s1)"
    by (rule GetNextPeer_all_alive)
  from Suc.prems have "backends ?s1 \<noteq> []" "\<forall>b\<in>set (backends ?s1). Alive b" by simp_all
  from Suc.IH [OF this]
  have T: "GetNextPeer_times k ?s1 =
     (map (\<lambda>j. Inr (Some (unat (current s + 1 + of_nat (Suc j)) mod length (backends s)))) [0..<k],
      s\<lparr>current := current s + 1 + of_nat k\<rparr>)" by simp
  have "current s + 1 + of_nat k = current s + of_nat (Suc k)" by simp
  moreover have "\<And>j. current s + 1 + of_nat (Suc j) = current s + of_nat (Suc (Suc j))"
    by simp
  ultimately show ?case
    using G T by (simp only: GetNextPeer_times.simps map_upt_Suc prod.case) simp
qed

lemma unat_cursor_step:
  assumes "unat (c :: 64 word) + m < 2 ^ 64 \<or> n dvd (2 ^ 64 :: nat)"
  shows "unat (c + of_nat m) mod n = (unat c + m) mod n"
proof -
  have u: "unat (c + of_nat m) = (unat c + m) mod 2 ^ 64"
    by (simp add: unat_word_ariths unat_of_nat mod_add_right_eq)
  from assms show ?thesis
  proof
    assume "unat c + m < 2 ^ 64"
    with u show ?thesis by simp
  next
    assume "n dvd (2 ^ 64 :: nat)"
    then have "(unat c + m) mod 2 ^ 64 mod n = (unat c + m) mod n"
      by (rule mod_mod_cancel)
    with u show ?thesis by simp
  qed
qed

lemma rotate_upt:
  assumes "0 < n"
  shows "rotate m [0..<n] = map (\<lambda>k. (m + k) mod n) [0..<n]"
  by (rule nth_equalityI) (simp_all add: nth_rotate)

text \<open>
  Claim C3, as stated, fails where the 64-bit cursor wraps around: on a pool of three
  alive backends with the cursor at \<open>2^64 - 2\<close>, three calls of \<open>GetNextPeer\<close> return
  the first backend twice and the third backend not at all, because \<open>2^64\<close> is not a
  multiple of 3.
\<close>

theorem C3_round_robin_wrap_counterexample:
  "fst (GetNextPeer_times 3 (pool_ABC 18446744073709551614)) =
     [Inr (Some 0), Inr (Some 0), Inr (Some 1)]"
proof -
  have ne: "backends (pool_ABC 18446744073709551614) \<noteq> []" by (simp add: pool_ABC_def)
  have alive: "\<forall>b\<in>set (backends (pool_ABC 18446744073709551614)). Alive b"
    by (simp add: pool_ABC_def)
  have up: "[0..<3] = [0, 1, 2::nat]" by code_simp
  from GetNextPeer_times_all_alive [OF ne alive, of 3] show ?thesis
    by (simp add: pool_ABC_def up)
qed

text \<open>
  Claim C3, amended. On a pool of \<open>N \<ge> 1\<close> backends that are all alive, where either
  the cursor does not wrap around during the calls (\<open>cursor + N + 1 < 2^64\<close>) or \<open>N\<close>
  divides \<open>2^64\<close>: the first \<open>N\<close> of \<open>N + 1\<close> sequential calls of \<open>GetNextPeer\<close>
  return the backends in pool order rotated to start one past the cursor's index, each
  backend exactly once, and call \<open>N + 1\<close> returns the first of them again.
\<close>

theorem C3_round_robin_without_wrap:
  assumes ne: "backends s \<noteq> []"
    and alive: "\<forall>b\<in>set (backends s). Alive b"
    and nowrap: "unat (current s) + length (backends s) + 1 < 2 ^ 64
                 \<or> length (backends s) dvd (2 ^ 64 :: nat)"
  shows "fst (GetNextPeer_times (length (backends s) + 1) s) =
           map (\<lambda>i. Inr (Some i))
             (rotate ((unat (current s) mod length (backends s) + 1) mod length (backends s))
                [0..<length (backends s)]
              @ [(unat (current s) mod length (backends s) + 1) mod length (backends s)]) \<and>
         distinct (take (length (backends s))
                     (fst (GetNextPeer_times (length (backends s) + 1) s))) \<and>
         set (take (length (backends s))
                (fst (GetNextPeer_times (length (backends s) + 1) s))) =
           (\<lambda>i. Inr (Some i)) ` {0..<length (backends s)}"
proof -
  let ?n = "length (backends s)"
  let ?c = "unat (current s)"
  let ?start = "(?c mod ?n + 1) mod ?n"
  let ?f = "\<lambda>i::nat. (Inr (Some i) :: panic + nat option)"
  from ne have n: "0 < ?n" by simp
  have step: "unat (current s + of_nat (Suc j)) mod ?n = (?start + j) mod ?n" if "j \<le> ?n" for j
  proof -
    from nowrap that have "?c + Suc j < 2 ^ 64 \<or> ?n dvd (2 ^ 64 :: nat)" by auto
    then have "unat (current s + of_nat (Suc j)) mod ?n = (?c + Suc j) mod ?n"
      by (rule unat_cursor_step)
    also have "\<dots> = ((?c mod ?n + 1) mod ?n + j) mod ?n"
      by (simp add: mod_simps)
    finally show ?thesis .
  qed
  have "fst (GetNextPeer_times (?n + 1) s) =
      map (\<lambda>j. Inr (Some (unat (current s + of_nat (Suc j)) mod ?n))) [0..<?n + 1]"
    using GetNextPeer_times_all_alive [OF ne alive, of "?n + 1"] by simp
  also have "\<dots> = map (\<lambda>j. Inr (Some ((?start + j) mod ?n))) [0..<?n + 1]"
  proof (rule map_cong [OF refl])
    fix j assume "j \<in> set [0..<?n + 1]"
    then have "j \<le> ?n" by auto
    from step [OF this]
    show "Inr (Some (unat (current s + of_nat (Suc j)) mod ?n)) = Inr (Some ((?start + j) mod ?n))"
      by (simp only:)
  qed
  also have "\<dots> = map ?f (map (\<lambda>k. (?start + k) mod ?n) [0..<?n] @ [?start])"
    using n by simp
  also have "map (\<lambda>k. (?start + k) mod ?n) [0..<?n] = rotate ?start [0..<?n]"
    using rotate_upt [OF n] by simp
  finally have eq: "fst (GetNextPeer_times (?n + 1) s) =
      map ?f (rotate ?start [0..<?n] @ [?start])" .
  have tk: "take ?n (fst (GetNextPeer_times (?n + 1) s)) = map ?f (rotate ?start [0..<?n])"
    unfolding eq by simp
  have "inj ?f" by (simp add: inj_def)
  then have d: "distinct (map ?f (rotate ?start [0..<?n]))"
    by (simp add: distinct_map inj_on_def)
  have s: "set (map ?f (rotate ?start [0..<?n])) = ?f ` {0..<?n}"
    by simp
  show ?thesis unfolding tk by (intro conjI eq d s)
qed

theorem C3_round_robin_without_wrap_witness:
  "fst (GetNextPeer_times 4 (pool_ABC 3)) = [Inr (Some 1), Inr (Some 2), Inr (Some 0), Inr (Some 1)]"
proof -
  have ne: "backends (pool_ABC 3) \<noteq> []" by (simp add: pool_ABC_def)
  have alive: "\<forall>b\<in>set (backends (pool_ABC 3)). Alive b" by (simp add: pool_ABC_def)
  have nowrap: "unat (current (pool_ABC 3)) + length (backends (pool_ABC 3)) + 1 < 2 ^ 64
                 \<or> length (backends (pool_ABC 3)) dvd (2 ^ 64 :: nat)"
    by (simp add: pool_ABC_def)
  have len: "length (backends (pool_ABC 3)) = 3" "unat (current (pool_ABC 3)) = 3"
    by (simp_all add: pool_ABC_def)
  have r: "rotate1 [0..<3] = [Suc 0, 2, 0::nat]"
    by code_simp
  from C3_round_robin_without_wrap [OF ne alive nowrap] show ?thesis
    by (simp add: len r)
qed

section \<open>The health-check pass\<close>

lemma HealthCheck_loop_spec:
  "HealthCheck_loop dial bs tr = (bs', tr') \<Longrightarrow>
   length bs' = length bs \<and> tr' = tr @ map probe_of bs \<and>
   (\<forall>i<length bs. bs' ! i =
      SetAlive (bs ! i)
        (dial (tr @ map probe_of (take i bs)) ''tcp'' (url_Host (URL (bs ! i))) (2 * Second)))"
proof (induction bs arbitrary: tr bs' tr')
  case Nil
  then show ?case by simp
next
  case (Cons b bs)
  let ?ok = "dial tr ''tcp'' (url_Host (URL b)) (2 * Second)"
  let ?tr1 = "tr @ [probe_of b]"
  obtain bs1 tr1 where rest: "HealthCheck_loop dial bs ?tr1 = (bs1, tr1)"
    by (cases "HealthCheck_loop dial bs ?tr1")
  from Cons.prems rest have res: "bs' = SetAlive b ?ok # bs1" "tr' = tr1"
    by (simp_all add: isBackendAlive_def Let_def probe_of_def)
  from Cons.IH [OF rest] have IH: "length bs1 = length bs" "tr1 = ?tr1 @ map probe_of bs"
    "\<forall>i<length bs. bs1 ! i =
      SetAlive (bs ! i)
        (dial (?tr1 @ map probe_of (take i bs)) ''tcp'' (url_Host (URL (bs ! i))) (2 * Second))"
    by simp_all
  have "bs' ! i = SetAlive ((b # bs) ! i)
        (dial (tr @ map probe_of (take i (b # bs))) ''tcp''
           (url_Host (URL ((b # bs) ! i))) (2 * Second))"
    if "i < length (b # bs)" for i
  proof (cases i)
    case 0
    with res show ?thesis by simp
  next
    case (Suc j)
    with that have "j < length bs" by simp
    with IH(3) Suc res show ?thesis by simp
  qed
  with res IH(1,2) show ?case by simp
qed

lemma list_of_length_3: "length xs = 3 \<Longrightarrow> xs = [xs ! 0, xs ! 1, xs ! 2]"
  by (auto simp: length_Suc_conv numeral_3_eq_3 numeral_2_eq_2)

text \<open>
  Claim C8. One pass of \<open>HealthCheck\<close> dials every backend of the pool, in pool order,
  over TCP at the backend's host with a timeout of two seconds (the trace grows by exactly
  these dials), and afterwards the \<open>Alive\<close> flag of every backend is the answer of its
  own dial, \<open>True\<close> for a success and \<open>False\<close> for a failure, whatever the answers
  of the other dials were. The URLs, the number of backends and the cursor are unchanged.
\<close>

theorem C8_HealthCheck_pass:
  "length (backends (pool (HealthCheck dial w))) = length (backends (pool w)) \<and>
   current (pool (HealthCheck dial w)) = current (pool w) \<and>
   trace (HealthCheck dial w) =
     trace w @ map (\<lambda>b. Dial ''tcp'' (url_Host (URL b)) (2 * Second)) (backends (pool w)) \<and>
   (\<forall>i<length (backends (pool w)).
      backends (pool (HealthCheck dial w)) ! i =
        (backends (pool w) ! i)\<lparr>Alive :=
           dial (trace w @ map (\<lambda>b. Dial ''tcp'' (url_Host (URL b)) (2 * Second))
                            (take i (backends (pool w))))
             ''tcp'' (url_Host (URL (backends (pool w) ! i))) (2 * Second)\<rparr>)"
proof -
  obtain bs' tr' where l: "HealthCheck_loop dial (backends (pool w)) (trace w) = (bs', tr')"
    by (cases "HealthCheck_loop dial (backends (pool w)) (trace w)")
  then have H: "HealthCheck dial w = w\<lparr>pool := (pool w)\<lparr>backends := bs'\<rparr>, trace := tr'\<rparr>"
    by (simp add: HealthCheck_def)
  have p: "probe_of = (\<lambda>b. Dial ''tcp'' (url_Host (URL b)) (2 * Second))"
    by (rule ext) (simp add: probe_of_def)
  from HealthCheck_loop_spec [OF l] H show ?thesis
    by (simp add: p SetAlive_def)
qed

theorem C8_HealthCheck_pass_witness:
  "backends (pool (HealthCheck dial_only_a \<lparr>pool = pool_dead_dead_C, trace = []\<rparr>)) =
     [\<lparr>URL = url_A, Alive = True\<rparr>, \<lparr>URL = url_B, Alive = False\<rparr>,
      \<lparr>URL = url_C, Alive = False\<rparr>] \<and>
   trace (HealthCheck dial_only_a \<lparr>pool = pool_dead_dead_C, trace = []\<rparr>) =
     [Dial ''tcp'' ''a:80'' 2000000000, Dial ''tcp'' ''b:80'' 2000000000,
      Dial ''tcp'' ''c:80'' 2000000000]"
proof -
  let ?w = "\<lparr>pool = pool_dead_dead_C, trace = []\<rparr>"
  let ?bs = "backends (pool (HealthCheck dial_only_a ?w))"
  note c8 = C8_HealthCheck_pass [of dial_only_a ?w]
  have len: "length (backends (pool ?w)) = 3" by (simp add: pool_dead_dead_C_def)
  from c8 len have l: "length ?bs = 3" by simp
  from c8 have ix: "\<And>i. i < 3 \<Longrightarrow> ?bs ! i =
        (backends (pool ?w) ! i)\<lparr>Alive :=
           dial_only_a (trace ?w @ map (\<lambda>b. Dial ''tcp'' (url_Host (URL b)) (2 * Second))
                            (take i (backends (pool ?w))))
             ''tcp'' (url_Host (URL (backends (pool ?w) ! i))) (2 * Second)\<rparr>"
    using len by simp
  have e0: "?bs ! 0 = \<lparr>URL = url_A, Alive = True\<rparr>"
    using ix [of 0]
    by (simp add: pool_dead_dead_C_def dial_only_a_def url_A_def Second_def Millisecond_def)
  have e1: "?bs ! 1 = \<lparr>URL = url_B, Alive = False\<rparr>"
    using ix [of 1]
    by (simp add: pool_dead_dead_C_def dial_only_a_def url_B_def Second_def Millisecond_def)
  have e2: "?bs ! 2 = \<lparr>URL = url_C, Alive = False\<rparr>"
    using ix [of 2]
    by (simp add: pool_dead_dead_C_def dial_only_a_def url_C_def Second_def Millisecond_def)
  have "?bs = [?bs ! 0, ?bs ! 1, ?bs ! 2]"
    using l by (rule list_of_length_3)
  with e0 e1 e2 have b: "?bs = [\<lparr>URL = url_A, Alive = True\<rparr>, \<lparr>URL = url_B, Alive = False\<rparr>,
      \<lparr>URL = url_C, Alive = False\<rparr>]" by simp
  from c8 have t: "trace (HealthCheck dial_only_a ?w) =
     [Dial ''tcp'' ''a:80'' 2000000000, Dial ''tcp'' ''b:80'' 2000000000,
      Dial ''tcp'' ''c:80'' 2000000000]"
    by (simp add: pool_dead_dead_C_def url_A_def url_B_def url_C_def Second_def Millisecond_def)
  from b t show ?thesis by simp
qed

section \<open>Dispatcher and forwarding-error handler: the counters along a run\<close>

declare lb.simps [simp del] ErrorHandler.simps [simp del]

lemma GetRetry_contextKey [simp]:
  "GetRetryFromContext (WithContext r (WithValue (Context r) (contextKey x) v)) =
   GetRetryFromContext r"
  by (simp add: GetRetryFromContext_def WithContext_def WithValue_def Value_def contextKey_def)

lemma GetAttempts_contextKey [simp]:
  "GetAttemptsFromContext (WithContext r (WithValue (Context r) (contextKey x) v)) =
   GetAttemptsFromContext r"
  by (simp add: GetAttemptsFromContext_def WithContext_def WithValue_def Value_def contextKey_def)

subsection \<open>Same-backend retries\<close>

lemma map_of_replicate_other: "k \<noteq> a \<Longrightarrow> map_of (replicate n (a, b)) k = None"
  by (induction n) simp_all

lemma GetRetry_retried: "GetRetryFromContext (retried k) = 0"
  by (simp add: GetRetryFromContext_def retried_def Value_def contextKey_def
      map_of_replicate_other)

lemma retried_step:
  "WithContext (retried k)
     (WithValue (Context (retried k)) (contextKey Retry) (IntVal 1))
   = retried (Suc k)"
  by (simp add: retried_def WithContext_def WithValue_def)

lemma ServeHTTP_never:
  "ServeHTTP n never u (retried k) w =
     (OutOfFuel,
      w\<lparr>trace := trace w @
         concat (map (\<lambda>j. [RoundTrip u (retried (k + j)), Sleep (10 * Millisecond)]) [0..<n])\<rparr>)"
proof (induction n arbitrary: k w)
  case 0
  show ?case by simp
next
  case (Suc n)
  let ?w1 = "emit (emit w (RoundTrip u (retried k))) (Sleep (10 * Millisecond))"
  have "ServeHTTP (Suc n) never u (retried k) w = ServeHTTP n never u (retried (Suc k)) ?w1"
    by (simp add: never_def Let_def ErrorHandler.simps GetRetry_retried
        retried_step word_sless_alt)
  also note Suc.IH [of "Suc k" ?w1]
  finally show ?case
    by (simp add: emit_def map_upt_Suc del: upt_Suc)
qed

text \<open>
  Claim C1 says that the error handler retries the same backend at most 3 times and then
  fails over. The handler stores the incremented retry count under the key
  \<open>contextKey(Retry)\<close>, a string, and \<open>GetRetryFromContext\<close> reads under the key
  \<open>Retry\<close>, an \<open>int\<close>: the count it reads never changes. On a pool of three alive
  backends with the cursor at 2, for a request without counters and a first backend whose
  round trips all fail, the run has not returned after any number \<open>n\<close> of round trips:
  all \<open>n\<close> of them go to that backend, each followed by a wait of 10 ms, every retry
  stores the count 1, no backend is marked down, and \<open>lb\<close> is not entered again.
\<close>

theorem C1_retries_never_end:
  "lb n never fresh_request \<lparr>pool = pool_ABC 2, trace = []\<rparr> =
     (OutOfFuel,
      \<lparr>pool = pool_ABC 3,
       trace = Enter_lb fresh_request #
         concat (map (\<lambda>j. [RoundTrip url_A (retried j), Sleep (10 * Millisecond)]) [0..<n])\<rparr>)"
proof -
  have ne: "backends (pool_ABC 2) \<noteq> []" and al: "\<forall>b\<in>set (backends (pool_ABC 2)). Alive b"
    by (simp_all add: pool_ABC_def)
  have G: "GetNextPeer (pool_ABC 2) = (Inr (Some 0), pool_ABC 3)"
    using GetNextPeer_all_alive [OF ne al] by (simp add: pool_ABC_def)
  have a: "GetAttemptsFromContext fresh_request = 1"
    by (simp add: GetAttemptsFromContext_def fresh_request_def Value_def)
  have r0: "fresh_request = retried 0" by (simp add: retried_def fresh_request_def)
  have u: "URL (backends (pool_ABC 3) ! 0) = url_A" by (simp add: pool_ABC_def)
  have "lb n never fresh_request \<lparr>pool = pool_ABC 2, trace = []\<rparr> =
        ServeHTTP n never url_A (retried 0) \<lparr>pool = pool_ABC 3, trace = [Enter_lb fresh_request]\<rparr>"
    by (simp add: lb.simps [of n never fresh_request] Let_def a G u emit_def word_sless_alt r0 [symmetric])
  then show ?thesis by (simp add: ServeHTTP_never)
qed

subsection \<open>The attempts ceiling and failover\<close>

text \<open>
  For a request that reads a retry count below 3, whatever the transport does, the error
  handler never takes its failover branch: \<open>lb\<close> is entered once and no backend is
  marked down.
\<close>

lemma routing_entries_emit [simp]:
  "routing_entries (trace (emit w e)) = routing_entries (trace w) + (if is_Enter_lb e then 1 else 0)"
  by (simp add: routing_entries_def emit_def)

lemma ServeHTTP_routing:
  "GetRetryFromContext r <s 3 \<Longrightarrow>
   routing_entries (trace (snd (ServeHTTP n rt u r w))) = routing_entries (trace w)"
proof (induction n arbitrary: r w)
  case 0
  show ?case by simp
next
  case (Suc n)
  let ?c = "WithValue (Context r) (contextKey Retry) (IntVal (GetRetryFromContext r + 1))"
  let ?w2 = "emit (emit w (RoundTrip u r)) (Sleep (10 * Millisecond))"
  show ?case
  proof (cases "rt (trace w) u r")
    case True
    then show ?thesis by (simp add: Let_def)
  next
    case False
    from Suc.prems have "GetRetryFromContext (WithContext r ?c) <s 3" by simp
    from Suc.IH [OF this, of ?w2]
    have "routing_entries (trace (snd (ServeHTTP n rt u (WithContext r ?c) ?w2))) =
          routing_entries (trace w)" by simp
    with False Suc.prems show ?thesis
      by (simp add: Let_def ErrorHandler.simps [of n rt u r])
  qed
qed

lemma lb_routing:
  assumes "GetRetryFromContext r <s 3"
  shows "routing_entries (trace (snd (lb n rt r w))) = routing_entries (trace w) + 1"
proof -
  let ?w0 = "emit w (Enter_lb r)"
  obtain res y where G: "GetNextPeer (pool ?w0) = (res, y)" by (cases "GetNextPeer (pool ?w0)")
  have S: "routing_entries (trace (snd (ServeHTTP n rt u r (?w0\<lparr>pool := y\<rparr>)))) =
           routing_entries (trace w) + 1" for u
    using ServeHTTP_routing [OF assms, of n rt u "?w0\<lparr>pool := y\<rparr>"]
    by (simp add: routing_entries_def emit_def)
  show ?thesis
    using G S
    by (simp add: lb.simps [of n rt r w] Let_def split: sum.splits option.splits)
qed

lemma ServeHTTP_pool:
  "GetRetryFromContext r <s 3 \<Longrightarrow> pool (snd (ServeHTTP n rt u r w)) = pool w"
proof (induction n arbitrary: r w)
  case 0
  show ?case by simp
next
  case (Suc n)
  let ?c = "WithValue (Context r) (contextKey Retry) (IntVal (GetRetryFromContext r + 1))"
  let ?w2 = "emit (emit w (RoundTrip u r)) (Sleep (10 * Millisecond))"
  show ?case
  proof (cases "rt (trace w) u r")
    case True
    then show ?thesis by (simp add: Let_def emit_def)
  next
    case False
    from Suc.prems have "GetRetryFromContext (WithContext r ?c) <s 3" by simp
    from Suc.IH [OF this, of ?w2]
    have "pool (snd (ServeHTTP n rt u (WithContext r ?c) ?w2)) = pool w"
      by (simp add: emit_def)
    with False Suc.prems show ?thesis
      by (simp add: Let_def ErrorHandler.simps [of n rt u r])
  qed
qed

text \<open>What \<open>lb\<close> does when the attempts count it reads exceeds 3.\<close>

lemma lb_attempts_exceeded:
  "3 <s GetAttemptsFromContext r \<Longrightarrow>
   lb n rt r w =
     (Returned,
      w\<lparr>trace := trace w @
         [Enter_lb r, HttpError ''Service not available'' StatusServiceUnavailable]\<rparr>)"
  by (simp add: lb.simps [of n rt r w] Let_def emit_def)







end
